theory Spec2Isabelle
  imports Main
begin

section \<open>Strings\<close>

text \<open>
  A JavaScript string is a sequence of UTF-16 code units. The model uses \<open>string\<close>,
  one \<open>char\<close> per code unit, which covers the code units below 256. The white space
  of \<open>String.prototype.trim\<close> and of the regular-expression class \<open>\s\<close> is, in that
  range, TAB, LF, VT, FF, CR, SPACE and NBSP.
\<close>

definition isWhiteSpace :: "char \<Rightarrow> bool" where
  "isWhiteSpace c =
     (c = CHR 0x09 \<or> c = CHR 0x0A \<or> c = CHR 0x0B \<or> c = CHR 0x0C \<or> c = CHR 0x0D \<or>
      c = CHR 0x20 \<or> c = CHR 0xA0)"

text \<open>\<open>s.trim()\<close>\<close>

definition trim :: "string \<Rightarrow> string" where
  "trim s = rev (dropWhile isWhiteSpace (rev (dropWhile isWhiteSpace s)))"

text \<open>\<open>s.split(c)\<close> for a one-character separator: never the empty array.\<close>

fun splitOn :: "char \<Rightarrow> string \<Rightarrow> string list" where
  "splitOn sep [] = [[]]"
| "splitOn sep (c # cs) =
     (if c = sep then [] # splitOn sep cs
      else (case splitOn sep cs of [] \<Rightarrow> [[c]] | l # ls \<Rightarrow> (c # l) # ls))"

text \<open>\<open>xs.join(sep)\<close>\<close>

fun join :: "string \<Rightarrow> string list \<Rightarrow> string" where
  "join sep [] = []"
| "join sep [x] = x"
| "join sep (x # y # ys) = x @ sep @ join sep (y # ys)"

text \<open>The decimal numeral of a natural number, as template literals print an index.\<close>

fun natToString :: "nat \<Rightarrow> string" where
  "natToString n =
     (if n < 10 then [''0123456789'' ! n]
      else natToString (n div 10) @ [''0123456789'' ! (n mod 10)])"

declare natToString.simps [simp del]

section \<open>The generic table: \<open>csv-parser.ts\<close>\<close>

text \<open>
  A \<open>CSVRow\<close> is a plain object \<open>{}\<close> with string values. The model keeps its own
  properties as a map from the key to the value; the order in which an object lists its
  keys is not modelled (no function below lists them). Its prototype is
  \<open>Object.prototype\<close>, whose properties are inherited:
  \<^item> \<open>__proto__\<close> is an accessor. Its setter ignores a value that is neither an object
    nor \<open>null\<close>, so \<open>row['__proto__'] = value\<close> stores nothing when \<open>value\<close> is a string;
    its getter returns \<open>Object.prototype\<close>, which a template literal prints as
    \<open>[object Object]\<close>.
  \<^item> The other properties are writable data properties holding built-in functions, so an
    assignment under such a key creates an own property as under any other key, and a
    read finds the function when the row has no own property of that name. The text a
    template literal prints for a built-in function is implementation-defined (V8
    prints one line, JavaScriptCore and SpiderMonkey several): the model takes it as
    the parameter \<open>nativeText\<close>, from the property name to the text.
\<close>

type_synonym CSVRow = "string \<rightharpoonup> string"

definition objectPrototypeFunctions :: "string list" where
  "objectPrototypeFunctions =
     [''constructor'', ''__defineGetter__'', ''__defineSetter__'', ''hasOwnProperty'',
      ''__lookupGetter__'', ''__lookupSetter__'', ''isPrototypeOf'', ''propertyIsEnumerable'',
      ''toString'', ''valueOf'', ''toLocaleString'']"

text \<open>\<open>row[k] = v\<close>, for a string \<open>v\<close>\<close>

definition setKey :: "string \<Rightarrow> string \<Rightarrow> CSVRow \<Rightarrow> CSVRow" where
  "setKey k v row = (if k = ''__proto__'' then row else row(k \<mapsto> v))"

text \<open>
  The text of \<open>row[k] || ''\<close> in a template literal: the own value (the empty string is
  replaced by the empty string), else the inherited value, which is truthy, else the
  empty string.
\<close>

definition getKey :: "(string \<Rightarrow> string) \<Rightarrow> CSVRow \<Rightarrow> string \<Rightarrow> string" where
  "getKey nativeText row k =
     (case row k of
        Some v \<Rightarrow> v
      | None \<Rightarrow>
          if k = ''__proto__'' then ''[object Object]''
          else if k \<in> set objectPrototypeFunctions then nativeText k
          else [])"

text \<open>
  \<open>row[k] || ''\<close> as a string, for a key \<open>k\<close> that \<open>Object.prototype\<close> does not have: only
  the own properties are seen.
\<close>

definition getOwn :: "CSVRow \<Rightarrow> string \<Rightarrow> string" where
  "getOwn row k = (case row k of Some v \<Rightarrow> v | None \<Rightarrow> [])"

record CSVTable =
  headers :: "string list"
  rows :: "CSVRow list"
  totalRows :: nat

record CSVParseOptions =
  skipEmptyRows :: bool
  trimWhitespace :: bool
  handleEmptyHeaders :: bool

text \<open>The constructor's defaults.\<close>

definition defaultOptions :: CSVParseOptions where
  "defaultOptions = \<lparr>skipEmptyRows = True, trimWhitespace = True, handleEmptyHeaders = True\<rparr>"

text \<open>
  \<open>parseCSVLine\<close>: the \<open>while\<close> loop over the characters of the line, with the rest of
  the line in place of the index \<open>i\<close>, and the variables \<open>values\<close>, \<open>current\<close> and
  \<open>inQuotes\<close>.
\<close>

fun parseCSVLineLoop :: "string \<Rightarrow> string list \<Rightarrow> string \<Rightarrow> bool \<Rightarrow> string list" where
  "parseCSVLineLoop [] values current inQuotes = values @ [current]"
| "parseCSVLineLoop (c # cs) values current inQuotes =
     (if c = CHR 0x22 then
        (case cs of
           c' # cs' \<Rightarrow>
             if inQuotes \<and> c' = CHR 0x22
             then parseCSVLineLoop cs' values (current @ [CHR 0x22]) inQuotes
             else parseCSVLineLoop cs values current (\<not> inQuotes)
         | [] \<Rightarrow> parseCSVLineLoop cs values current (\<not> inQuotes))
      else if c = CHR '','' \<and> \<not> inQuotes then parseCSVLineLoop cs (values @ [current]) [] inQuotes
      else parseCSVLineLoop cs values (current @ [c]) inQuotes)"

definition parseCSVLine :: "string \<Rightarrow> string list" where
  "parseCSVLine line = parseCSVLineLoop line [] [] False"

text \<open>\<open>processHeaders\<close>: \<open>headers.map((header, index) => ...)\<close>\<close>

definition processHeader :: "CSVParseOptions \<Rightarrow> string \<Rightarrow> nat \<Rightarrow> string" where
  "processHeader opts header index =
     (let processedHeader = trim header in
      if processedHeader = [] \<and> handleEmptyHeaders opts then
        (if index = 0 then ''TransactionID'' else ''Column'' @ natToString (index + 1))
      else processedHeader)"

definition processHeaders :: "CSVParseOptions \<Rightarrow> string list \<Rightarrow> string list" where
  "processHeaders opts hs = map (\<lambda>(header, index). processHeader opts header index)
     (zip hs [0 ..< length hs])"

text \<open>The body of the row loop: \<open>processedHeaders.forEach((header, index) => ...)\<close>\<close>

definition cellValue :: "CSVParseOptions \<Rightarrow> string list \<Rightarrow> nat \<Rightarrow> string" where
  "cellValue opts values index =
     (if index < length values then
        (let value = values ! index in if trimWhitespace opts then trim value else value)
      else [])"

definition buildRow :: "CSVParseOptions \<Rightarrow> string list \<Rightarrow> string list \<Rightarrow> CSVRow" where
  "buildRow opts processedHeaders values =
     foldl (\<lambda>row (header, index). setKey header (cellValue opts values index) row) Map.empty
       (zip processedHeaders [0 ..< length processedHeaders])"

text \<open>The \<open>for\<close> loop over \<open>lines[1..]\<close>, with its two \<open>continue\<close>s.\<close>

fun parseRows :: "CSVParseOptions \<Rightarrow> string list \<Rightarrow> string list \<Rightarrow> CSVRow list" where
  "parseRows opts processedHeaders [] = []"
| "parseRows opts processedHeaders (l # ls) =
     (let line = trim l in
      if line = [] \<and> skipEmptyRows opts then parseRows opts processedHeaders ls
      else
        (let values = parseCSVLine line in
         if length values = 0 then parseRows opts processedHeaders ls
         else buildRow opts processedHeaders values # parseRows opts processedHeaders ls))"

definition parse :: "CSVParseOptions \<Rightarrow> string \<Rightarrow> CSVTable" where
  "parse opts csvContent =
     (let lines = filter (\<lambda>line. trim line \<noteq> []) (splitOn CHR 0x0A csvContent) in
      if length lines = 0 then \<lparr>headers = [], rows = [], totalRows = 0\<rparr>
      else
        (let processedHeaders = processHeaders opts (parseCSVLine (hd lines));
             rs = parseRows opts processedHeaders (tl lines)
         in \<lparr>headers = processedHeaders, rows = rs, totalRows = length rs\<rparr>))"

text \<open>\<open>exportToCSV\<close>: every field between double quotes, nothing escaped.\<close>

definition quote :: "string \<Rightarrow> string" where
  "quote s = [CHR 0x22] @ s @ [CHR 0x22]"

definition exportToCSV :: "(string \<Rightarrow> string) \<Rightarrow> CSVTable \<Rightarrow> string" where
  "exportToCSV nativeText table =
     (let headerLine = join '','' (map quote (headers table));
          dataLines = map (\<lambda>row. join '','' (map (\<lambda>header. quote (getKey nativeText row header)) (headers table)))
                        (rows table)
      in join [CHR 0x0A] (headerLine # dataLines))"

section \<open>The option \<open>skipEmptyRows\<close>\<close>

lemma cellValue_skipEmptyRows:
  "cellValue (opts\<lparr>skipEmptyRows := b\<rparr>) = cellValue opts"
  by (intro ext) (simp add: cellValue_def)

lemma buildRow_skipEmptyRows:
  "buildRow (opts\<lparr>skipEmptyRows := b\<rparr>) = buildRow opts"
  by (intro ext) (simp add: buildRow_def cellValue_skipEmptyRows)

lemma parseRows_skipEmptyRows:
  "list_all (\<lambda>l. trim l \<noteq> []) ls \<Longrightarrow>
   parseRows (opts\<lparr>skipEmptyRows := b\<rparr>) hs ls = parseRows opts hs ls"
  by (induction ls) (simp_all add: Let_def buildRow_skipEmptyRows)

lemma list_all_tl: "list_all P xs \<Longrightarrow> list_all P (tl xs)"
  by (cases xs) simp_all

text \<open>
  C9. The option \<open>skipEmptyRows\<close> never changes the table: the lines that are empty once
  trimmed are removed by the filter on the lines, before the loop tests the option.
\<close>

theorem parse_skipEmptyRows_irrelevant:
  "parse (opts\<lparr>skipEmptyRows := False\<rparr>) csvContent = parse (opts\<lparr>skipEmptyRows := True\<rparr>) csvContent"
proof -
  let ?lines = "filter (\<lambda>line. trim line \<noteq> []) (splitOn CHR 0x0A csvContent)"
  have "list_all (\<lambda>l. trim l \<noteq> []) ?lines"
    by (simp add: list_all_iff)
  then have tl: "list_all (\<lambda>l. trim l \<noteq> []) (tl ?lines)"
    by (rule list_all_tl)
  have ph: "processHeaders (opts\<lparr>skipEmptyRows := b\<rparr>) hs = processHeaders opts hs" for b hs
    by (simp add: processHeaders_def processHeader_def)
  show ?thesis
    by (simp add: parse_def Let_def ph parseRows_skipEmptyRows [OF tl])
qed

section \<open>Export and parse: the round trip\<close>

text \<open>
  A field survives the round trip when it has no double quote (the export escapes
  nothing), no line feed (the parser splits the text into lines first) and no white
  space at either end (the parser trims the values by default, and always the headers).
\<close>

definition cleanField :: "string \<Rightarrow> bool" where
  "cleanField s = (CHR 0x22 \<notin> set s \<and> CHR 0x0A \<notin> set s \<and> trim s = s)"

text \<open>
  A table survives when it is empty (no header and no row), or when it has a header, no
  header is empty (an empty header is renamed) or \<open>__proto__\<close> (the parser cannot store a
  value under it), and every header and every text the export reads under a header is
  such a field.
\<close>

definition cleanTable :: "(string \<Rightarrow> string) \<Rightarrow> CSVTable \<Rightarrow> bool" where
  "cleanTable nativeText T =
     ((headers T = [] \<and> rows T = []) \<or>
      (headers T \<noteq> [] \<and> ''__proto__'' \<notin> set (headers T) \<and>
       list_all (\<lambda>h. h \<noteq> [] \<and> cleanField h) (headers T) \<and>
       list_all (\<lambda>row. list_all (\<lambda>h. cleanField (getKey nativeText row h)) (headers T)) (rows T)))"

text \<open>The text of a built-in function as V8 prints it, for the closed examples.\<close>

definition v8NativeText :: "string \<Rightarrow> string" where
  "v8NativeText k = ''function '' @ (if k = ''constructor'' then ''Object'' else k) @ ''() { [native code] }''"

definition sampleTable :: CSVTable where
  "sampleTable = \<lparr>headers = [''From'', ''Amount'', ''valueOf''],
     rows = [[''From'' \<mapsto> ''LS Bets'', ''Amount'' \<mapsto> ''+$500'', ''valueOf'' \<mapsto> ''7''],
             [''From'' \<mapsto> ''Bank, Inc'']],
     totalRows = 2\<rparr>"

definition paddedTable :: CSVTable where
  "paddedTable = \<lparr>headers = [''a''], rows = [[''a'' \<mapsto> '' x'']], totalRows = 1\<rparr>"

definition protoTable :: CSVTable where
  "protoTable = \<lparr>headers = [''__proto__''], rows = [[''__proto__'' \<mapsto> ''x'']], totalRows = 1\<rparr>"

lemma loop_inQuotes:
  "CHR 0x22 \<notin> set f \<Longrightarrow>
   parseCSVLineLoop (f @ rest) vs cur True = parseCSVLineLoop rest vs (cur @ f) True"
  by (induction f arbitrary: cur) (auto split: list.splits)

lemma loop_field_last:
  "CHR 0x22 \<notin> set f \<Longrightarrow> parseCSVLineLoop (quote f) vs [] False = vs @ [f]"
  using loop_inQuotes [of f "[CHR 0x22]" vs "[]"]
  by (cases f) (simp_all add: quote_def)

lemma loop_field_more:
  "CHR 0x22 \<notin> set f \<Longrightarrow>
   parseCSVLineLoop (quote f @ CHR '','' # rest) vs [] False = parseCSVLineLoop rest (vs @ [f]) [] False"
  using loop_inQuotes [of f "CHR 0x22 # CHR '','' # rest" vs "[]"]
  by (cases f) (simp_all add: quote_def)

lemma loop_join:
  "list_all (\<lambda>f. CHR 0x22 \<notin> set f) fs \<Longrightarrow> fs \<noteq> [] \<Longrightarrow>
   parseCSVLineLoop (join '','' (map quote fs)) vs [] False = vs @ fs"
proof (induction fs arbitrary: vs)
  case Nil
  then show ?case by simp
next
  case (Cons f fs)
  show ?case
  proof (cases fs)
    case Nil
    with Cons.prems show ?thesis by (simp add: loop_field_last)
  next
    case (Cons g gs)
    with Cons.prems Cons.IH [of "vs @ [f]"] show ?thesis
      by (simp add: loop_field_more)
  qed
qed

lemma parseCSVLine_join:
  "list_all (\<lambda>f. CHR 0x22 \<notin> set f) fs \<Longrightarrow> fs \<noteq> [] \<Longrightarrow>
   parseCSVLine (join '','' (map quote fs)) = fs"
  using loop_join [of fs "[]"] by (simp add: parseCSVLine_def)

lemma splitOn_no_sep: "sep \<notin> set l \<Longrightarrow> splitOn sep l = [l]"
  by (induction l) auto

lemma splitOn_append: "sep \<notin> set l \<Longrightarrow> splitOn sep (l @ sep # rest) = l # splitOn sep rest"
  by (induction l) auto

lemma splitOn_join:
  "list_all (\<lambda>l. sep \<notin> set l) ls \<Longrightarrow> ls \<noteq> [] \<Longrightarrow> splitOn sep (join [sep] ls) = ls"
proof (induction ls)
  case Nil
  then show ?case by simp
next
  case (Cons l ls)
  then show ?case
    by (cases ls) (simp_all add: splitOn_no_sep splitOn_append)
qed


lemma trim_id:
  "s \<noteq> [] \<Longrightarrow> \<not> isWhiteSpace (hd s) \<Longrightarrow> \<not> isWhiteSpace (last s) \<Longrightarrow> trim s = s"
proof -
  assume s: "s \<noteq> []" and h: "\<not> isWhiteSpace (hd s)" and l: "\<not> isWhiteSpace (last s)"
  from s h have 1: "dropWhile isWhiteSpace s = s"
    by (cases s) simp_all
  from s l have 2: "dropWhile isWhiteSpace (rev s) = rev s"
    by (cases "rev s") (simp_all add: last_rev [symmetric] hd_rev)
  show ?thesis by (simp add: trim_def 1 2)
qed

lemma join_quote_shape:
  "fs \<noteq> [] \<Longrightarrow> join '','' (map quote fs) \<noteq> [] \<and> hd (join '','' (map quote fs)) = CHR 0x22
     \<and> last (join '','' (map quote fs)) = CHR 0x22"
proof (induction fs)
  case Nil
  then show ?case by simp
next
  case (Cons f fs)
  then show ?case
    by (cases fs) (simp_all add: quote_def)
qed

lemma trim_line: "fs \<noteq> [] \<Longrightarrow> trim (join '','' (map quote fs)) = join '','' (map quote fs)"
  using join_quote_shape [of fs] by (intro trim_id) (simp_all add: isWhiteSpace_def)

lemma set_join: "set (join sep xs) \<subseteq> set sep \<union> \<Union> (set ` set xs)"
  by (induction sep xs rule: join.induct) auto

lemma line_no_newline:
  "list_all (\<lambda>f. CHR 0x0A \<notin> set f) fs \<Longrightarrow> CHR 0x0A \<notin> set (join '','' (map quote fs))"
proof
  assume a: "list_all (\<lambda>f. CHR 0x0A \<notin> set f) fs" and "CHR 0x0A \<in> set (join '','' (map quote fs))"
  with set_join [of "'',''" "map quote fs"]
  have "CHR 0x0A \<in> set '','' \<union> \<Union> (set ` set (map quote fs))" by blast
  with a show False by (auto simp: list_all_iff quote_def split: if_splits)
qed

lemma getKey_setKey:
  "getKey nt (setKey k v r) h = (if h = k \<and> k \<noteq> ''__proto__'' then v else getKey nt r h)"
  by (simp add: getKey_def setKey_def)

lemma getKey_foldl_setKey:
  "list_all (\<lambda>(h', i). val i = g h' \<and> h' \<noteq> ''__proto__'') ps \<Longrightarrow>
   getKey nt (foldl (\<lambda>row (header, index). setKey header (val index) row) r0 ps) h =
     (if h \<in> fst ` set ps then g h else getKey nt r0 h)"
proof (induction ps arbitrary: r0)
  case Nil
  then show ?case by simp
next
  case (Cons p ps)
  obtain h' i where p: "p = (h', i)" by (cases p)
  from Cons.prems p have v: "val i = g h'" and np: "h' \<noteq> ''__proto__''"
    and rest: "list_all (\<lambda>(h', i). val i = g h' \<and> h' \<noteq> ''__proto__'') ps"
    by simp_all
  show ?case
    using Cons.IH [OF rest, of "setKey h' (val i) r0"] v np
    by (auto simp: p getKey_setKey)
qed

lemma getKey_buildRow:
  assumes "list_all (\<lambda>h. trim (g h) = g h) hs" and "''__proto__'' \<notin> set hs" and "h \<in> set hs"
  shows "getKey nt (buildRow opts hs (map g hs)) h = g h"
proof -
  have "list_all (\<lambda>(h', i). cellValue opts (map g hs) i = g h' \<and> h' \<noteq> ''__proto__'')
          (zip hs [0 ..< length hs])"
    using assms(1,2)
    by (auto simp: list_all_iff cellValue_def Let_def set_zip) (metis nth_mem)
  from getKey_foldl_setKey [OF this, of nt Map.empty h]
  have "getKey nt (buildRow opts hs (map g hs)) h =
          (if h \<in> fst ` set (zip hs [0 ..< length hs]) then g h else getKey nt Map.empty h)"
    by (simp add: buildRow_def)
  moreover have "fst ` set (zip hs [0 ..< length hs]) = set hs"
    by (metis length_upt minus_nat.diff_0 map_fst_zip set_map)
  ultimately show ?thesis using assms(3) by simp
qed

lemma processHeaders_id:
  assumes "list_all (\<lambda>h. h \<noteq> [] \<and> trim h = h) hs"
  shows "processHeaders opts hs = hs"
proof -
  have "map (\<lambda>(header, index). processHeader opts header index) (zip hs [0 ..< length hs])
        = map fst (zip hs [0 ..< length hs])"
    using assms
    by (intro map_cong refl) (auto simp: list_all_iff processHeader_def Let_def dest: set_zip_leftD)
  then show ?thesis by (simp add: processHeaders_def)
qed


lemma parseRows_lines:
  assumes hs: "hs \<noteq> []"
    and rs: "list_all (\<lambda>row. list_all (\<lambda>h. CHR 0x22 \<notin> set (getKey nt row h)) hs) rs"
  shows "parseRows opts hs (map (\<lambda>row. join '','' (map quote (map (getKey nt row) hs))) rs)
         = map (\<lambda>row. buildRow opts hs (map (getKey nt row) hs)) rs"
  using rs
proof (induction rs)
  case Nil
  then show ?case by simp
next
  case (Cons r rs)
  let ?fs = "map (getKey nt r) hs"
  let ?l = "join '','' (map quote ?fs)"
  from hs have ne: "?fs \<noteq> []" by simp
  from Cons.prems have q: "list_all (\<lambda>f. CHR 0x22 \<notin> set f) ?fs"
    by (simp add: list_all_iff)
  have t: "trim ?l = ?l"
    using ne by (rule trim_line)
  have n: "?l \<noteq> []"
    using join_quote_shape [OF ne] by blast
  have p: "parseCSVLine ?l = ?fs"
    using q ne by (rule parseCSVLine_join)
  from Cons.prems have "list_all (\<lambda>row. list_all (\<lambda>h. CHR 0x22 \<notin> set (getKey nt row h)) hs) rs"
    by simp
  then have IH: "parseRows opts hs (map (\<lambda>row. join '','' (map quote (map (getKey nt row) hs))) rs)
         = map (\<lambda>row. buildRow opts hs (map (getKey nt row) hs)) rs"
    by (rule Cons.IH)
  have "parseRows opts hs (?l # map (\<lambda>row. join '','' (map quote (map (getKey nt row) hs))) rs)
        = buildRow opts hs ?fs # parseRows opts hs (map (\<lambda>row. join '','' (map quote (map (getKey nt row) hs))) rs)"
    unfolding parseRows.simps Let_def t p using n ne by simp
  with IH show ?case by simp
qed

lemma exportToCSV_lines:
  "exportToCSV nt T = join [CHR 0x0A] (join '','' (map quote (headers T)) #
     map (\<lambda>row. join '','' (map quote (map (getKey nt row) (headers T)))) (rows T))"
  by (simp add: exportToCSV_def comp_def)

lemma parse_exportToCSV:
  assumes ne: "headers T \<noteq> []"
    and hclean: "list_all (\<lambda>h. h \<noteq> [] \<and> cleanField h) (headers T)"
    and rclean: "list_all (\<lambda>row. list_all (\<lambda>h. cleanField (getKey nt row h)) (headers T)) (rows T)"
  shows "parse opts (exportToCSV nt T) =
     \<lparr>headers = headers T,
      rows = map (\<lambda>row. buildRow opts (headers T) (map (getKey nt row) (headers T))) (rows T),
      totalRows = length (rows T)\<rparr>"
proof -
  let ?hs = "headers T"
  let ?hl = "join '','' (map quote ?hs)"
  let ?dl = "map (\<lambda>row. join '','' (map quote (map (getKey nt row) ?hs))) (rows T)"
  have hq: "list_all (\<lambda>f. CHR 0x22 \<notin> set f) ?hs"
    and hn: "list_all (\<lambda>f. CHR 0x0A \<notin> set f) ?hs"
    and ht: "list_all (\<lambda>h. h \<noteq> [] \<and> trim h = h) ?hs"
    using hclean by (simp_all add: list_all_iff cleanField_def)
  have rq: "list_all (\<lambda>row. list_all (\<lambda>h. CHR 0x22 \<notin> set (getKey nt row h)) ?hs) (rows T)"
    using rclean by (simp add: list_all_iff cleanField_def)
  have nl: "list_all (\<lambda>l. CHR 0x0A \<notin> set l) (?hl # ?dl)"
  proof -
    have "CHR 0x0A \<notin> set ?hl"
      using hn by (rule line_no_newline)
    moreover have "CHR 0x0A \<notin> set (join '','' (map quote (map (getKey nt row) ?hs)))"
      if "row \<in> set (rows T)" for row
    proof (rule line_no_newline)
      from rclean that show "list_all (\<lambda>f. CHR 0x0A \<notin> set f) (map (getKey nt row) ?hs)"
        by (simp add: list_all_iff cleanField_def)
    qed
    ultimately show ?thesis by (simp add: list_all_iff)
  qed
  have split: "splitOn CHR 0x0A (exportToCSV nt T) = ?hl # ?dl"
    unfolding exportToCSV_lines using nl by (intro splitOn_join) simp_all
  have keep: "trim l \<noteq> []" if "l \<in> set (?hl # ?dl)" for l
  proof -
    from that consider "l = ?hl" | row where "l = join '','' (map quote (map (getKey nt row) ?hs))"
      by auto
    then obtain fs where l: "l = join '','' (map quote fs)" and fs: "fs \<noteq> []"
      using ne by cases (metis, metis map_is_Nil_conv)
    from trim_line [OF fs] join_quote_shape [OF fs] show ?thesis by (simp add: l)
  qed
  then have filt: "filter (\<lambda>line. trim line \<noteq> []) (?hl # ?dl) = ?hl # ?dl"
    by (intro filter_True) blast
  have hdr: "processHeaders opts (parseCSVLine ?hl) = ?hs"
    using parseCSVLine_join [OF hq ne] processHeaders_id [OF ht] by simp
  have rws: "parseRows opts ?hs ?dl = map (\<lambda>row. buildRow opts ?hs (map (getKey nt row) ?hs)) (rows T)"
    using ne rq by (rule parseRows_lines)
  show ?thesis
    unfolding parse_def split filt Let_def list.sel hdr rws by simp
qed

lemma parse_empty: "parse opts [] = \<lparr>headers = [], rows = [], totalRows = 0\<rparr>"
  by (simp add: parse_def trim_def)

lemma exportToCSV_empty: "headers T = [] \<Longrightarrow> rows T = [] \<Longrightarrow> exportToCSV nt T = []"
  by (simp add: exportToCSV_def)

lemma map_getKey_buildRow:
  assumes "list_all (\<lambda>h. cleanField (getKey nt row h)) hs" and "''__proto__'' \<notin> set hs"
  shows "map (getKey nt (buildRow opts hs (map (getKey nt row) hs))) hs = map (getKey nt row) hs"
proof (rule map_cong [OF refl])
  fix h assume "h \<in> set hs"
  moreover from assms have "list_all (\<lambda>h. trim (getKey nt row h) = getKey nt row h) hs"
    by (simp add: list_all_iff cleanField_def)
  ultimately show "getKey nt (buildRow opts hs (map (getKey nt row) hs)) h = getKey nt row h"
    using getKey_buildRow [of "getKey nt row" hs h nt opts] assms(2) by simp
qed

text \<open>
  C6, as amended. For a clean table, whatever text the host prints for built-in
  functions and under any options of the parser, parsing the exported text and exporting
  again gives the same text; the parsed table has the same headers, and the export reads
  the same text under every header of every row.
\<close>

theorem exportToCSV_roundtrip:
  assumes "cleanTable nt T"
  shows "exportToCSV nt (parse opts (exportToCSV nt T)) = exportToCSV nt T
       \<and> headers (parse opts (exportToCSV nt T)) = headers T
       \<and> map (\<lambda>row. map (getKey nt row) (headers T)) (rows (parse opts (exportToCSV nt T)))
           = map (\<lambda>row. map (getKey nt row) (headers T)) (rows T)"
proof (cases "headers T = []")
  case True
  with assms have r: "rows T = []" by (simp add: cleanTable_def)
  show ?thesis
    by (simp add: exportToCSV_empty [OF True r] parse_empty True r exportToCSV_def)
next
  case ne: False
  with assms have np: "''__proto__'' \<notin> set (headers T)"
    and hclean: "list_all (\<lambda>h. h \<noteq> [] \<and> cleanField h) (headers T)"
    and rclean: "list_all (\<lambda>row. list_all (\<lambda>h. cleanField (getKey nt row h)) (headers T)) (rows T)"
    by (simp_all add: cleanTable_def)
  note pe = parse_exportToCSV [OF ne hclean rclean]
  have cells: "map (\<lambda>row. map (getKey nt row) (headers T)) (rows (parse opts (exportToCSV nt T)))
           = map (\<lambda>row. map (getKey nt row) (headers T)) (rows T)"
    unfolding pe using rclean np
    by (simp add: list_all_iff map_getKey_buildRow)
  have hdrs: "headers (parse opts (exportToCSV nt T)) = headers T"
    by (simp add: pe)
  have "map (\<lambda>fs. join '','' (map quote fs))
          (map (\<lambda>row. map (getKey nt row) (headers T)) (rows (parse opts (exportToCSV nt T))))
        = map (\<lambda>fs. join '','' (map quote fs)) (map (\<lambda>row. map (getKey nt row) (headers T)) (rows T))"
    by (simp only: cells)
  then have lines: "map (\<lambda>row. join '','' (map quote (map (getKey nt row) (headers T))))
          (rows (parse opts (exportToCSV nt T)))
        = map (\<lambda>row. join '','' (map quote (map (getKey nt row) (headers T)))) (rows T)"
    by (simp only: map_map comp_def)
  have "exportToCSV nt (parse opts (exportToCSV nt T)) = exportToCSV nt T"
    unfolding exportToCSV_lines [of nt "parse opts (exportToCSV nt T)"] hdrs lines
    by (simp only: exportToCSV_lines [of nt T])
  with hdrs cells show ?thesis by simp
qed

lemmas trim_eval = trim_def isWhiteSpace_def

lemmas table_eval = exportToCSV_def parse_def defaultOptions_def quote_def getKey_def setKey_def
  trim_eval parseCSVLine_def processHeaders_def processHeader_def buildRow_def cellValue_def Let_def
  objectPrototypeFunctions_def

text \<open>
  A table with a comma in a value, a row that lacks a key, and a header that names a
  function of \<open>Object.prototype\<close>: the second row has no own \<open>valueOf\<close>, so the export
  prints the inherited function there, and the parsed row holds that text as its own.
\<close>

theorem exportToCSV_roundtrip_witness:
  "cleanTable v8NativeText sampleTable
   \<and> exportToCSV v8NativeText (parse defaultOptions (exportToCSV v8NativeText sampleTable))
       = exportToCSV v8NativeText sampleTable
   \<and> map (\<lambda>row. map (getKey v8NativeText row) (headers sampleTable))
        (rows (parse defaultOptions (exportToCSV v8NativeText sampleTable)))
       = [[''LS Bets'', ''+$500'', ''7''], [''Bank, Inc'', [], ''function valueOf() { [native code] }'']]"
proof -
  have c: "cleanTable v8NativeText sampleTable"
    by (simp add: cleanTable_def cleanField_def sampleTable_def getKey_def trim_eval
        objectPrototypeFunctions_def v8NativeText_def)
  have "map (\<lambda>row. map (getKey v8NativeText row) (headers sampleTable)) (rows sampleTable)
       = [[''LS Bets'', ''+$500'', ''7''], [''Bank, Inc'', [], ''function valueOf() { [native code] }'']]"
    by (simp add: sampleTable_def getKey_def objectPrototypeFunctions_def v8NativeText_def)
  with exportToCSV_roundtrip [OF c, of defaultOptions] c show ?thesis by simp
qed

text \<open>
  C6 as stated fails: no field of \<open>paddedTable\<close> has a double quote, but its value
  \<open>" x"\<close> starts with a space, which the parser trims. It fails as well at
  \<open>protoTable\<close>, whose only field \<open>x\<close> is stored under \<open>__proto__\<close>: the parser's assignment
  stores nothing there, and the second export prints the inherited object.
\<close>

theorem exportToCSV_roundtrip_counterexample:
  "list_all (\<lambda>h. CHR 0x22 \<notin> set h) (headers paddedTable)
   \<and> list_all (\<lambda>row. list_all (\<lambda>h. CHR 0x22 \<notin> set (getKey v8NativeText row h)) (headers paddedTable))
        (rows paddedTable)
   \<and> exportToCSV v8NativeText paddedTable
       = [CHR 0x22, CHR ''a'', CHR 0x22, CHR 0x0A, CHR 0x22, CHR '' '', CHR ''x'', CHR 0x22]
   \<and> exportToCSV v8NativeText (parse defaultOptions (exportToCSV v8NativeText paddedTable))
       = [CHR 0x22, CHR ''a'', CHR 0x22, CHR 0x0A, CHR 0x22, CHR ''x'', CHR 0x22]
   \<and> map (\<lambda>row. getKey v8NativeText row ''a'') (rows (parse defaultOptions (exportToCSV v8NativeText paddedTable)))
       = [''x'']
   \<and> map (\<lambda>row. getKey v8NativeText row ''a'') (rows paddedTable) = ['' x'']
   \<and> exportToCSV v8NativeText protoTable
       = [CHR 0x22] @ ''__proto__'' @ [CHR 0x22, CHR 0x0A, CHR 0x22, CHR ''x'', CHR 0x22]
   \<and> exportToCSV v8NativeText (parse defaultOptions (exportToCSV v8NativeText protoTable))
       = [CHR 0x22] @ ''__proto__'' @ [CHR 0x22, CHR 0x0A, CHR 0x22] @ ''[object Object]'' @ [CHR 0x22]"
  by (simp add: paddedTable_def protoTable_def table_eval)

section \<open>Numbers\<close>

text \<open>
  A JavaScript number is an IEEE 754 double. \<open>Fin m e\<close> is the finite double of value
  \<open>m * 2 ^ e\<close>, kept in normal form: \<open>m\<close> is odd, or \<open>m = 0\<close> and \<open>e = 0\<close>. The two
  zeros are one value here: they are equal under \<open>==\<close>, \<open>>\<close> and \<open><\<close>, and no operation
  below tells them apart. Every arithmetic operation computes the exact result and rounds
  it to the nearest double, ties to the even significand, with 53 significant bits, the
  least exponent \<open>-1074\<close> (subnormal numbers) and overflow to infinity from \<open>2 ^ 1024\<close>.
\<close>

datatype number = NaN | PosInf | NegInf | Fin int int

text \<open>The number of binary digits of a positive integer.\<close>

function bitlen :: "int \<Rightarrow> int" where
  "bitlen n = (if n \<le> 0 then 0 else 1 + bitlen (n div 2))"
  by pat_completeness auto
termination
  by (relation "measure nat") auto

declare bitlen.simps [simp del]

text \<open>The normal form of \<open>m * 2 ^ e\<close>.\<close>

function normalise :: "int \<Rightarrow> int \<Rightarrow> int \<times> int" where
  "normalise m e =
     (if m = 0 then (0, 0) else if even m then normalise (m div 2) (e + 1) else (m, e))"
  by pat_completeness auto
termination
  by (relation "measure (\<lambda>(m, e). nat \<bar>m\<bar>)") auto

declare normalise.simps [simp del]

text \<open>\<open>ilog2 p q\<close> is the integer part of the binary logarithm of \<open>p / q\<close>, for positive \<open>p\<close> and \<open>q\<close>.\<close>

definition ilog2 :: "int \<Rightarrow> int \<Rightarrow> int" where
  "ilog2 p q =
     (let d = bitlen p - bitlen q in
      if (if 0 \<le> d then q * 2 ^ nat d \<le> p else q \<le> p * 2 ^ nat (- d)) then d else d - 1)"

text \<open>\<open>a / b\<close> rounded to the nearest integer, ties to even.\<close>

definition roundHalfEven :: "int \<Rightarrow> int \<Rightarrow> int" where
  "roundHalfEven a b =
     (let n = a div b; r = a mod b in
      if 2 * r < b then n else if b < 2 * r then n + 1 else if even n then n else n + 1)"

text \<open>
  The double nearest to \<open>num / den\<close> (\<open>den\<close> positive): the quantum is \<open>2 ^ qe\<close>, and
  the significand is the quotient by the quantum, rounded.
\<close>

definition roundRatio :: "int \<Rightarrow> int \<Rightarrow> number" where
  "roundRatio num den =
     (if num = 0 then Fin 0 0
      else
        (let p = \<bar>num\<bar>;
             qe = max (ilog2 p den - 52) (- 1074);
             n = (if 0 \<le> qe then roundHalfEven p (den * 2 ^ nat qe)
                  else roundHalfEven (p * 2 ^ nat (- qe)) den)
         in if 0 \<le> qe \<and> 2 ^ 1024 \<le> n * 2 ^ nat qe
            then (if 0 < num then PosInf else NegInf)
            else (case normalise (if 0 < num then n else - n) qe of (m, e) \<Rightarrow> Fin m e)))"

text \<open>The double nearest to \<open>m * 2 ^ e\<close>.\<close>

definition roundDyadic :: "int \<Rightarrow> int \<Rightarrow> number" where
  "roundDyadic m e = (if 0 \<le> e then roundRatio (m * 2 ^ nat e) 1 else roundRatio m (2 ^ nat (- e)))"

definition ofInt :: "int \<Rightarrow> number" where
  "ofInt n = roundRatio n 1"

text \<open>Unary minus, \<open>Math.abs\<close>, \<open>+\<close> and \<open>-\<close>.\<close>

fun fneg :: "number \<Rightarrow> number" where
  "fneg NaN = NaN"
| "fneg PosInf = NegInf"
| "fneg NegInf = PosInf"
| "fneg (Fin m e) = Fin (- m) e"

fun fabs :: "number \<Rightarrow> number" where
  "fabs NaN = NaN"
| "fabs PosInf = PosInf"
| "fabs NegInf = PosInf"
| "fabs (Fin m e) = Fin \<bar>m\<bar> e"

fun fadd :: "number \<Rightarrow> number \<Rightarrow> number" where
  "fadd NaN y = NaN"
| "fadd x NaN = NaN"
| "fadd PosInf NegInf = NaN"
| "fadd NegInf PosInf = NaN"
| "fadd PosInf y = PosInf"
| "fadd NegInf y = NegInf"
| "fadd x PosInf = PosInf"
| "fadd x NegInf = NegInf"
| "fadd (Fin m1 e1) (Fin m2 e2) =
     (let e = min e1 e2 in roundDyadic (m1 * 2 ^ nat (e1 - e) + m2 * 2 ^ nat (e2 - e)) e)"

definition fsub :: "number \<Rightarrow> number \<Rightarrow> number" where
  "fsub x y = fadd x (fneg y)"

text \<open>\<open>x > 0\<close> and \<open>x < 0\<close>: false for \<open>NaN\<close>.\<close>

fun gtZero :: "number \<Rightarrow> bool" where
  "gtZero PosInf = True"
| "gtZero (Fin m e) = (0 < m)"
| "gtZero x = False"

fun ltZero :: "number \<Rightarrow> bool" where
  "ltZero NegInf = True"
| "ltZero (Fin m e) = (m < 0)"
| "ltZero x = False"

subsection \<open>Integers up to \<open>2 ^ 53\<close> are exact\<close>

lemma bitlen_nonpos: "n \<le> 0 \<Longrightarrow> bitlen n = 0"
  by (simp add: bitlen.simps)

lemma bitlen_pos: "0 < n \<Longrightarrow> bitlen n = 1 + bitlen (n div 2)"
  by (subst bitlen.simps) simp

lemma bitlen_ge0: "0 \<le> bitlen n"
proof (induction n rule: bitlen.induct)
  case (1 n)
  show ?case
  proof (cases "n \<le> 0")
    case True
    then show ?thesis by (simp add: bitlen_nonpos)
  next
    case False
    with "1.IH" have "0 \<le> bitlen (n div 2)" by simp
    moreover from False have "bitlen n = 1 + bitlen (n div 2)" by (simp add: bitlen_pos)
    ultimately show ?thesis by simp
  qed
qed

lemma bitlen_bounds: "0 < n \<Longrightarrow> 1 \<le> bitlen n \<and> 2 ^ nat (bitlen n - 1) \<le> n \<and> n < 2 ^ nat (bitlen n)"
proof (induction n rule: bitlen.induct)
  case (1 n)
  show ?case
  proof (cases "n = 1")
    case True
    then show ?thesis by (simp add: bitlen_pos bitlen_nonpos)
  next
    case False
    with "1.prems" have h: "0 < n div 2" by simp
    with "1.IH" "1.prems" have IH: "1 \<le> bitlen (n div 2)"
      "2 ^ nat (bitlen (n div 2) - 1) \<le> n div 2" "n div 2 < 2 ^ nat (bitlen (n div 2))"
      by simp_all
    have b: "bitlen n = 1 + bitlen (n div 2)" using "1.prems" by (rule bitlen_pos)
    have e1: "nat (bitlen n - 1) = Suc (nat (bitlen (n div 2) - 1))"
      using IH(1) b by simp
    have e2: "nat (bitlen n) = Suc (nat (bitlen (n div 2)))"
      using IH(1) b by simp
    from IH(2) have "2 * 2 ^ nat (bitlen (n div 2) - 1) \<le> n" by simp
    then have A: "2 ^ nat (bitlen n - 1) \<le> n" unfolding e1 by simp
    from IH(3) have "n < 2 * 2 ^ nat (bitlen (n div 2))" by simp
    then have B: "n < 2 ^ nat (bitlen n)" unfolding e2 by simp
    from b IH(1) have "1 \<le> bitlen n" by simp
    with A B show ?thesis by blast
  qed
qed

lemma bitlen_le: assumes "0 < n" "n < 2 ^ k" shows "bitlen n \<le> int k"
proof (rule ccontr)
  assume "\<not> bitlen n \<le> int k"
  then have "k \<le> nat (bitlen n - 1)" by simp
  then have "(2::int) ^ k \<le> 2 ^ nat (bitlen n - 1)" by (simp add: power_increasing)
  with bitlen_bounds [OF assms(1)] assms(2) show False by simp
qed




lemma normalise_zero: "normalise 0 e = (0, 0)"
  by (simp add: normalise.simps)

lemma normalise_even: "m \<noteq> 0 \<Longrightarrow> even m \<Longrightarrow> normalise m e = normalise (m div 2) (e + 1)"
  by (subst normalise.simps) simp

lemma normalise_odd: "odd m \<Longrightarrow> normalise m e = (m, e)"
  by (subst normalise.simps) auto

lemma normalise_shift: "m \<noteq> 0 \<Longrightarrow> normalise (m * 2 ^ k) e = normalise m (e + int k)"
proof (induction k arbitrary: e)
  case 0
  then show ?case by simp
next
  case (Suc k)
  have "normalise (m * 2 ^ Suc k) e = normalise (m * 2 ^ k) (e + 1)"
    using Suc.prems by (subst normalise_even) simp_all
  also have "\<dots> = normalise m (e + 1 + int k)" using Suc by simp
  finally show ?case by (simp add: add.assoc)
qed

lemma normalise_value:
  "normalise m e = (m', e') \<Longrightarrow> m \<noteq> 0 \<Longrightarrow> odd m' \<and> e \<le> e' \<and> m = m' * 2 ^ nat (e' - e)"
proof (induction m e rule: normalise.induct)
  case (1 m e)
  show ?case
  proof (cases "even m")
    case True
    then have m2: "2 * (m div 2) = m" by (rule even_two_times_div_two)
    from "1.prems"(1) have n: "normalise (m div 2) (e + 1) = (m', e')"
      by (simp only: normalise_even [OF "1.prems"(2) True])
    from m2 "1.prems"(2) have nz: "m div 2 \<noteq> 0" by linarith
    from "1.IH" [OF "1.prems"(2) True n nz]
    have o: "odd m'" and le: "e + 1 \<le> e'" and v: "m div 2 = m' * 2 ^ nat (e' - (e + 1))"
      by blast+
    from le have "nat (e' - e) = Suc (nat (e' - (e + 1)))" by linarith
    then have "m' * 2 ^ nat (e' - e) = 2 * (m' * 2 ^ nat (e' - (e + 1)))" by simp
    also have "\<dots> = m" using v m2 by simp
    finally have "m = m' * 2 ^ nat (e' - e)" by simp
    moreover from le have "e \<le> e'" by linarith
    ultimately show ?thesis using o by blast
  next
    case False
    then have "normalise m e = (m, e)" by (rule normalise_odd)
    with "1.prems"(1) have "m' = m" "e' = e" by simp_all
    with False show ?thesis by simp
  qed
qed

lemma normalise_neg: "normalise (- m) e = (case normalise m e of (m', e') \<Rightarrow> (- m', e'))"
proof (induction m e rule: normalise.induct)
  case (1 m e)
  show ?case
  proof (cases "m = 0")
    case True
    then show ?thesis by (simp add: normalise_zero)
  next
    case nz: False
    show ?thesis
    proof (cases "even m")
      case True
      have "normalise (- m) e = normalise ((- m) div 2) (e + 1)"
        using nz True by (subst normalise_even) simp_all
      also have "(- m) div 2 = - (m div 2)" using True by (metis dvd_neg_div)
      also have "normalise (- (m div 2)) (e + 1) = (case normalise (m div 2) (e + 1) of (m', e') \<Rightarrow> (- m', e'))"
        using "1.IH" nz True by simp
      also have "normalise (m div 2) (e + 1) = normalise m e"
        using nz True by (simp add: normalise_even)
      finally show ?thesis .
    next
      case False
      then show ?thesis by (simp add: normalise_odd)
    qed
  qed
qed

lemma roundHalfEven_one: "roundHalfEven a 1 = a"
  by (simp add: roundHalfEven_def)

lemma roundRatio_int_exact:
  assumes nz: "n \<noteq> 0" and small: "\<bar>n\<bar> < 2 ^ 53"
  shows "roundRatio n 1 = (case normalise n 0 of (m, e) \<Rightarrow> Fin m e)"
proof -
  let ?p = "\<bar>n\<bar>"
  have p: "0 < ?p" using nz by simp
  note bb = bitlen_bounds [OF p]
  have bl: "bitlen ?p \<le> 53" using bitlen_le [OF p small] by simp
  define L where "L = bitlen ?p - 1"
  have L: "0 \<le> L" "L \<le> 52" "2 ^ nat L \<le> ?p" using bb bl by (simp_all add: L_def)
  have b1: "bitlen 1 = 1" by (simp add: bitlen.simps)
  have il: "ilog2 ?p 1 = L"
    unfolding ilog2_def Let_def b1 using L by (simp add: L_def)
  define k where "k = nat (52 - L)"
  have qe: "max (ilog2 ?p 1 - 52) (- 1074) = - int k"
    unfolding il k_def using L by simp
  have n': "(if 0 \<le> - int k then roundHalfEven ?p (1 * 2 ^ nat (- int k))
             else roundHalfEven (?p * 2 ^ nat (- (- int k))) 1) = ?p * 2 ^ k"
  proof (cases "k = 0")
    case True
    then show ?thesis by (simp add: roundHalfEven_one)
  next
    case False
    then have "\<not> 0 \<le> - int k" by simp
    moreover have "nat (- (- int k)) = k" by simp
    ultimately show ?thesis by (simp only: if_False roundHalfEven_one)
  qed
  have "?p * 2 ^ k * 2 ^ nat (- int k) < 2 ^ 1024" if "0 \<le> - int k"
  proof -
    from that have "k = 0" by simp
    then have "?p * 2 ^ k * 2 ^ nat (- int k) = ?p" by simp
    also have "\<dots> < 2 ^ 53" by (rule small)
    also have "(2::int) ^ 53 < 2 ^ 1024" by simp
    finally show ?thesis .
  qed
  then have ov: "\<not> (0 \<le> - int k \<and> 2 ^ 1024 \<le> ?p * 2 ^ k * 2 ^ nat (- int k))"
    by (meson not_le)
  have sg: "(if 0 < n then ?p * 2 ^ k else - (?p * 2 ^ k)) = n * 2 ^ k"
    by simp
  have "roundRatio n 1 = (case normalise (n * 2 ^ k) (- int k) of (m, e) \<Rightarrow> Fin m e)"
    unfolding roundRatio_def Let_def qe n' sg using nz ov by (simp only: if_False)
  also have "normalise (n * 2 ^ k) (- int k) = normalise n 0"
    using normalise_shift [OF nz, of k "- int k"] by simp
  finally show ?thesis .
qed

lemma ofInt_exact:
  assumes "\<bar>n\<bar> \<le> 2 ^ 53"
  shows "ofInt n = (case normalise n 0 of (m, e) \<Rightarrow> Fin m e)"
proof -
  consider "n = 0" | "n \<noteq> 0" "\<bar>n\<bar> < 2 ^ 53" | "n = 2 ^ 53" | "n = - (2 ^ 53)"
    using assms by fastforce
  then show ?thesis
  proof cases
    case 1
    then show ?thesis by (simp add: ofInt_def roundRatio_def normalise_zero)
  next
    case 2
    then show ?thesis unfolding ofInt_def by (rule roundRatio_int_exact)
  next
    case 3
    have "ofInt (2 ^ 53) = (case normalise (2 ^ 53) 0 of (m, e) \<Rightarrow> Fin m e)" by code_simp
    with 3 show ?thesis by simp
  next
    case 4
    have "ofInt (- (2 ^ 53)) = (case normalise (- (2 ^ 53)) 0 of (m, e) \<Rightarrow> Fin m e)" by code_simp
    with 4 show ?thesis by simp
  qed
qed

lemma normalise_value0:
  assumes "normalise a 0 = (m, e)"
  shows "0 \<le> e \<and> a = m * 2 ^ nat e"
proof (cases "a = 0")
  case True
  with assms show ?thesis by (simp add: normalise_zero)
next
  case False
  from normalise_value [OF assms False] show ?thesis by simp
qed

lemma fadd_ofInt:
  assumes a: "\<bar>a\<bar> \<le> 2 ^ 53" and b: "\<bar>b\<bar> \<le> 2 ^ 53"
  shows "fadd (ofInt a) (ofInt b) = ofInt (a + b)"
proof -
  obtain m1 e1 where n1: "normalise a 0 = (m1, e1)" by (cases "normalise a 0")
  obtain m2 e2 where n2: "normalise b 0 = (m2, e2)" by (cases "normalise b 0")
  from normalise_value0 [OF n1] have e1: "0 \<le> e1" and va: "a = m1 * 2 ^ nat e1" by simp_all
  from normalise_value0 [OF n2] have e2: "0 \<le> e2" and vb: "b = m2 * 2 ^ nat e2" by simp_all
  define e where "e = min e1 e2"
  have e: "0 \<le> e" "e \<le> e1" "e \<le> e2" using e1 e2 by (simp_all add: e_def)
  have p1: "nat e1 = nat (e1 - e) + nat e" using e by simp
  have p2: "nat e2 = nat (e2 - e) + nat e" using e by simp
  have sum: "(m1 * 2 ^ nat (e1 - e) + m2 * 2 ^ nat (e2 - e)) * 2 ^ nat e = a + b"
  proof -
    have "(2::int) ^ nat e1 = 2 ^ nat (e1 - e) * 2 ^ nat e"
      by (subst p1) (simp only: power_add)
    moreover have "(2::int) ^ nat e2 = 2 ^ nat (e2 - e) * 2 ^ nat e"
      by (subst p2) (simp only: power_add)
    ultimately have "a + b = m1 * (2 ^ nat (e1 - e) * 2 ^ nat e) + m2 * (2 ^ nat (e2 - e) * 2 ^ nat e)"
      using va vb by simp
    then show ?thesis by (simp only: distrib_right mult.assoc)
  qed
  have "fadd (ofInt a) (ofInt b) = fadd (Fin m1 e1) (Fin m2 e2)"
    by (simp add: ofInt_exact [OF a] ofInt_exact [OF b] n1 n2)
  also have "\<dots> = roundDyadic (m1 * 2 ^ nat (e1 - e) + m2 * 2 ^ nat (e2 - e)) e"
    by (simp add: e_def Let_def)
  also have "\<dots> = roundRatio ((m1 * 2 ^ nat (e1 - e) + m2 * 2 ^ nat (e2 - e)) * 2 ^ nat e) 1"
    using e(1) by (simp add: roundDyadic_def)
  also have "\<dots> = ofInt (a + b)" by (simp only: sum ofInt_def)
  finally show ?thesis .
qed

lemma fneg_ofInt:
  assumes "\<bar>a\<bar> \<le> 2 ^ 53"
  shows "fneg (ofInt a) = ofInt (- a)"
proof -
  from assms have "\<bar>- a\<bar> \<le> 2 ^ 53" by simp
  from ofInt_exact [OF this] ofInt_exact [OF assms] show ?thesis
    by (simp add: normalise_neg split: prod.splits)
qed

lemma normalise_sign:
  assumes "normalise a 0 = (m, e)"
  shows "(0 < m) = (0 < a)" and "(m < 0) = (a < 0)"
proof -
  from normalise_value0 [OF assms] have va: "a = m * 2 ^ nat e" by simp
  have pos: "(0::int) < 2 ^ nat e" by simp
  show "(0 < m) = (0 < a)" by (subst va) (simp add: zero_less_mult_iff)
  show "(m < 0) = (a < 0)" by (subst va) (simp add: mult_less_0_iff)
qed

lemma gtZero_ofInt: "\<bar>a\<bar> \<le> 2 ^ 53 \<Longrightarrow> gtZero (ofInt a) = (0 < a)"
  using normalise_sign(1) [of a]
  by (cases "normalise a 0") (simp add: ofInt_exact)

lemma ltZero_ofInt: "\<bar>a\<bar> \<le> 2 ^ 53 \<Longrightarrow> ltZero (ofInt a) = (a < 0)"
  using normalise_sign(2) [of a]
  by (cases "normalise a 0") (simp add: ofInt_exact)

lemma fabs_ofInt:
  assumes "\<bar>a\<bar> \<le> 2 ^ 53"
  shows "fabs (ofInt a) = ofInt \<bar>a\<bar>"
proof (cases "0 \<le> a")
  case True
  obtain m e where n: "normalise a 0 = (m, e)" by (cases "normalise a 0")
  from normalise_sign(2) [OF n] True have "0 \<le> m" by simp
  with True n show ?thesis by (simp add: ofInt_exact [OF assms])
next
  case False
  obtain m e where n: "normalise a 0 = (m, e)" by (cases "normalise a 0")
  from normalise_sign(2) [OF n] False have "m < 0" by simp
  then have "fabs (ofInt a) = fneg (ofInt a)" using n by (simp add: ofInt_exact [OF assms])
  also have "\<dots> = ofInt (- a)" using assms by (rule fneg_ofInt)
  finally show ?thesis using False by simp
qed

section \<open>Amounts\<close>

text \<open>
  \<open>parseFloat\<close> is a built-in of the language (ECMA-262, 19.2.4): it skips leading white
  space and takes the longest prefix that is a \<open>StrDecimalLiteral\<close>: an optional sign,
  then \<open>Infinity\<close>, or digits with an optional fraction (at least one digit on one side
  of the point) and an optional exponent part, which counts only when it has a digit.
  The value is the double nearest to the decimal value; without such a prefix the result
  is \<open>NaN\<close>.
\<close>

definition isDigit :: "char \<Rightarrow> bool" where
  "isDigit c = (c \<in> set ''0123456789'')"

definition digitValue :: "char \<Rightarrow> int" where
  "digitValue c = of_char c - 48"

definition decimalValue :: "string \<Rightarrow> int" where
  "decimalValue ds = foldl (\<lambda>acc c. acc * 10 + digitValue c) 0 ds"

definition startsWith :: "string \<Rightarrow> string \<Rightarrow> bool" where
  "startsWith s p = (take (length p) s = p)"

text \<open>The exponent part at the head of a string, 0 when there is none.\<close>

definition exponentPart :: "string \<Rightarrow> int" where
  "exponentPart s =
     (case s of
        [] \<Rightarrow> 0
      | c # rest \<Rightarrow>
          if c = CHR ''e'' \<or> c = CHR ''E'' then
            (let neg = startsWith rest ''-'';
                 ds = takeWhile isDigit
                        (if startsWith rest ''-'' \<or> startsWith rest ''+'' then tl rest else rest)
             in if ds = [] then 0 else if neg then - decimalValue ds else decimalValue ds)
          else 0)"

text \<open>The digits \<open>d\<close> and the power of ten \<open>x\<close> of an unsigned literal of value \<open>d * 10 ^ x\<close>.\<close>

definition unsignedDecimal :: "string \<Rightarrow> (int \<times> int) option" where
  "unsignedDecimal s =
     (let ip = takeWhile isDigit s; r1 = dropWhile isDigit s in
      if startsWith r1 ''.'' then
        (let fp = takeWhile isDigit (tl r1); r2 = dropWhile isDigit (tl r1) in
         if ip = [] \<and> fp = [] then None
         else Some (decimalValue (ip @ fp), exponentPart r2 - int (length fp)))
      else if ip = [] then None
      else Some (decimalValue ip, exponentPart r1))"

definition decimalToNumber :: "int \<Rightarrow> int \<Rightarrow> number" where
  "decimalToNumber d x =
     (if 0 \<le> x then roundRatio (d * 10 ^ nat x) 1 else roundRatio d (10 ^ nat (- x)))"

definition parseFloat :: "string \<Rightarrow> number" where
  "parseFloat inputString =
     (let trimmed = dropWhile isWhiteSpace inputString;
          neg = startsWith trimmed ''-'';
          body = (if startsWith trimmed ''-'' \<or> startsWith trimmed ''+'' then tl trimmed else trimmed)
      in if startsWith body ''Infinity'' then (if neg then NegInf else PosInf)
         else (case unsignedDecimal body of
                 None \<Rightarrow> NaN
               | Some (d, x) \<Rightarrow> if neg then fneg (decimalToNumber d x) else decimalToNumber d x))"

text \<open>
  \<open>parseAmount\<close>: \<open>amountStr.replace(/[$,+\s]/g, '')\<close> removes every character of the
  class; \<open>cleanStr.replace(/^-/, '')\<close> removes one leading minus sign.
\<close>

definition isStripped :: "char \<Rightarrow> bool" where
  "isStripped c = (c = CHR ''$'' \<or> c = CHR '','' \<or> c = CHR ''+'' \<or> isWhiteSpace c)"

definition parseAmount :: "string \<Rightarrow> number" where
  "parseAmount amountStr =
     (let cleanStr = filter (\<lambda>c. \<not> isStripped c) amountStr;
          isNegative = startsWith cleanStr ''-'';
          numericPart = (if startsWith cleanStr ''-'' then drop 1 cleanStr else cleanStr);
          num = parseFloat numericPart
      in if num = NaN then NaN else if isNegative then fneg num else num)"

text \<open>
  \<open>strippedEdit s s'\<close>: \<open>s'\<close> comes from \<open>s\<close> by inserting and deleting characters of the
  class \<open>[$,+\s]\<close>, at any positions.
\<close>

inductive strippedEdit :: "string \<Rightarrow> string \<Rightarrow> bool" where
  same: "strippedEdit s s"
| insert: "strippedEdit s (xs @ ys) \<Longrightarrow> isStripped c \<Longrightarrow> strippedEdit s (xs @ c # ys)"
| delete: "strippedEdit s (xs @ c # ys) \<Longrightarrow> isStripped c \<Longrightarrow> strippedEdit s (xs @ ys)"


lemma startsWith_minus: "startsWith r ''-'' = (r \<noteq> [] \<and> hd r = CHR ''-'')"
  by (cases r) (simp_all add: startsWith_def)

lemma parseAmount_filter:
  "filter (\<lambda>c. \<not> isStripped c) s = filter (\<lambda>c. \<not> isStripped c) s' \<Longrightarrow> parseAmount s = parseAmount s'"
  by (simp add: parseAmount_def)

lemma strippedEdit_filter:
  "strippedEdit s s' \<Longrightarrow> filter (\<lambda>c. \<not> isStripped c) s = filter (\<lambda>c. \<not> isStripped c) s'"
  by (induction rule: strippedEdit.induct) simp_all

lemma roundHalfEven_nonneg: "0 \<le> a \<Longrightarrow> 0 < b \<Longrightarrow> 0 \<le> roundHalfEven a b"
  by (simp add: roundHalfEven_def Let_def pos_imp_zdiv_nonneg_iff)

lemma normalise_nonneg:
  assumes "0 \<le> m" and "normalise m e = (m', e')"
  shows "0 \<le> m'"
proof (cases "m = 0")
  case True
  with assms(2) show ?thesis by (simp add: normalise_zero)
next
  case False
  from normalise_value [OF assms(2) False] have v: "m = m' * 2 ^ nat (e' - e)" by simp
  from assms(1) False have "0 < m" by simp
  then have "0 < m' * 2 ^ nat (e' - e)" by (simp only: v [symmetric])
  then show ?thesis by (simp add: zero_less_mult_iff)
qed

lemma roundRatio_nonneg:
  assumes "0 \<le> num" and "0 < den"
  shows "\<not> ltZero (roundRatio num den)"
proof (cases "num = 0")
  case True
  then show ?thesis by (simp add: roundRatio_def)
next
  case False
  with assms(1) have pos: "0 < num" by simp
  define qe where "qe = max (ilog2 \<bar>num\<bar> den - 52) (- 1074)"
  define n where "n = (if 0 \<le> qe then roundHalfEven \<bar>num\<bar> (den * 2 ^ nat qe)
                  else roundHalfEven (\<bar>num\<bar> * 2 ^ nat (- qe)) den)"
  have n: "0 \<le> n"
    unfolding n_def using assms pos by (simp add: roundHalfEven_nonneg)
  obtain m e where ne: "normalise n qe = (m, e)" by (cases "normalise n qe")
  from normalise_nonneg [OF n ne] have m: "0 \<le> m" .
  have "roundRatio num den = PosInf \<or> roundRatio num den = Fin m e"
    unfolding roundRatio_def Let_def qe_def [symmetric] n_def [symmetric]
    using pos ne by simp
  with m show ?thesis by auto
qed

lemma decimalValue_nonneg_aux:
  "list_all isDigit ds \<Longrightarrow> 0 \<le> acc \<Longrightarrow> 0 \<le> foldl (\<lambda>acc c. acc * 10 + digitValue c) acc ds"
proof (induction ds arbitrary: acc)
  case Nil
  then show ?case by simp
next
  case (Cons d ds)
  from Cons.prems have "0 \<le> digitValue d"
    by (auto simp: isDigit_def digitValue_def)
  with Cons show ?case by simp
qed

lemma decimalValue_nonneg: "list_all isDigit ds \<Longrightarrow> 0 \<le> decimalValue ds"
  unfolding decimalValue_def by (rule decimalValue_nonneg_aux) simp_all

lemma list_all_takeWhile: "list_all P (takeWhile P xs)"
  by (induction xs) simp_all

lemma unsignedDecimal_nonneg: "unsignedDecimal s = Some (d, x) \<Longrightarrow> 0 \<le> d"
  by (auto simp: unsignedDecimal_def Let_def list_all_takeWhile
      intro!: decimalValue_nonneg split: if_splits)

lemma decimalToNumber_nonneg: "0 \<le> d \<Longrightarrow> \<not> ltZero (decimalToNumber d x)"
  by (simp add: decimalToNumber_def roundRatio_nonneg)

lemma parseFloat_nonneg:
  assumes "\<not> startsWith (dropWhile isWhiteSpace r) ''-''"
  shows "\<not> ltZero (parseFloat r)"
  using assms
  by (auto simp: parseFloat_def Let_def decimalToNumber_nonneg
      dest: unsignedDecimal_nonneg split: option.splits)

lemma dropWhile_filter_not: "(\<And>c. P c \<Longrightarrow> Q c) \<Longrightarrow> dropWhile P (filter (\<lambda>c. \<not> Q c) s) = filter (\<lambda>c. \<not> Q c) s"
  by (induction s) auto

lemma parseAmount_nonneg:
  assumes "\<not> startsWith (filter (\<lambda>c. \<not> isStripped c) s) ''-''"
  shows "\<not> ltZero (parseAmount s)"
proof -
  let ?r = "filter (\<lambda>c. \<not> isStripped c) s"
  have "dropWhile isWhiteSpace ?r = ?r"
    by (rule dropWhile_filter_not) (simp add: isStripped_def)
  with assms have "\<not> ltZero (parseFloat ?r)"
    by (intro parseFloat_nonneg) simp
  with assms show ?thesis by (simp add: parseAmount_def Let_def)
qed

end
